theory Spec2Isabelle
  imports Main "HOL-Library.Sublist"
begin

section \<open>The moderation bot of \<^verbatim>\<open>power_bot.py\<close>\<close>

text \<open>
  The development embeds the moderation core of \<^verbatim>\<open>power_bot.py\<close>: the SQLite tables
  (bans, warns, links), the in-memory spam tracker, the link filter and the two message
  handlers.

  Conventions of the embedding.
  \<^item> User, chat and message identifiers are Python ints: \<open>int\<close>.
  \<^item> A \<^verbatim>\<open>datetime\<close> is the number of microseconds since the epoch, an \<open>int\<close>; the
    readings of the clocks (\<^verbatim>\<open>datetime.utcnow()\<close>, SQLite's \<^verbatim>\<open>CURRENT_TIMESTAMP\<close>)
    are inputs of the functions that read them.
  \<^item> A text is a list of code points below 256 (Isabelle's \<open>char\<close>); \<^verbatim>\<open>str.lower\<close> and
    the regex class \<^verbatim>\<open>\S\<close> are modelled exactly on that range.
  \<^item> The module-level globals (\<^verbatim>\<open>DB\<close>, \<^verbatim>\<open>user_msg_times\<close>) are the fields of an explicit
    state that every function takes and returns.
  \<^item> Failures of SQLite itself are not modelled; failures of the bot API are.
\<close>

subsection \<open>State: the three tables and the spam tracker\<close>

type_synonym user_id = int
type_synonym timestamp = int

text \<open>
  \<^verbatim>\<open>bans(user_id PRIMARY KEY, reason, banned_at)\<close>,
  \<^verbatim>\<open>warns(user_id PRIMARY KEY, count, last_warn)\<close>,
  \<^verbatim>\<open>links(link PRIMARY KEY, added_at)\<close>, and
  \<^verbatim>\<open>user_msg_times = defaultdict(lambda: deque())\<close>.
\<close>

record state =
  bans :: "user_id \<rightharpoonup> string \<times> timestamp"
  warns :: "user_id \<rightharpoonup> int \<times> timestamp"
  links :: "(string \<times> timestamp) list"
  user_msg_times :: "user_id \<rightharpoonup> timestamp list"

text \<open>The tables after \<^verbatim>\<open>init_db\<close> on a fresh file, and the tracker at process start.\<close>

definition init_state :: state where
  "init_state = \<lparr>bans = Map.empty, warns = Map.empty, links = [], user_msg_times = Map.empty\<rparr>"

subsection \<open>Store helpers\<close>

text \<open>\<^verbatim>\<open>SELECT link FROM links\<close>\<close>

definition list_allowed_links :: "state \<Rightarrow> string list" where
  "list_allowed_links s = map fst (links s)"

text \<open>\<^verbatim>\<open>INSERT OR REPLACE INTO bans(user_id, reason)\<close>; \<open>ts\<close> is the default of \<^verbatim>\<open>banned_at\<close>.\<close>

definition ban_user_db :: "timestamp \<Rightarrow> user_id \<Rightarrow> string \<Rightarrow> state \<Rightarrow> state" where
  "ban_user_db ts uid reason s = s\<lparr>bans := (bans s)(uid \<mapsto> (reason, ts))\<rparr>"

text \<open>\<^verbatim>\<open>DELETE FROM bans WHERE user_id=?\<close>\<close>

definition unban_user_db :: "user_id \<Rightarrow> state \<Rightarrow> state" where
  "unban_user_db uid s = s\<lparr>bans := (bans s)(uid := None)\<rparr>"

text \<open>\<^verbatim>\<open>SELECT 1 FROM bans WHERE user_id=?\<close>, then \<^verbatim>\<open>fetchone() is not None\<close>.\<close>

definition is_banned_db :: "user_id \<Rightarrow> state \<Rightarrow> bool" where
  "is_banned_db uid s = (bans s uid \<noteq> None)"

text \<open>
  \<^verbatim>\<open>warn_user_db\<close>: read the row; if there is one, store \<open>count + 1\<close>, otherwise insert a
  row with count 1; return the count stored. \<open>ts\<close> is \<^verbatim>\<open>CURRENT_TIMESTAMP\<close>.
\<close>

definition warn_user_db :: "timestamp \<Rightarrow> user_id \<Rightarrow> state \<Rightarrow> int \<times> state" where
  "warn_user_db ts uid s =
     (case warns s uid of
        Some row \<Rightarrow> (let cnt = fst row + 1 in (cnt, s\<lparr>warns := (warns s)(uid \<mapsto> (cnt, ts))\<rparr>))
      | None \<Rightarrow> (let cnt = 1 in (cnt, s\<lparr>warns := (warns s)(uid \<mapsto> (cnt, ts))\<rparr>)))"

text \<open>\<^verbatim>\<open>DELETE FROM warns WHERE user_id=?\<close>\<close>

definition reset_warns_db :: "user_id \<Rightarrow> state \<Rightarrow> state" where
  "reset_warns_db uid s = s\<lparr>warns := (warns s)(uid := None)\<rparr>"

text \<open>
  A run of \<^verbatim>\<open>warn_user_db\<close> calls for one user, one clock reading per call: the counts
  returned, in order, and the final state.
\<close>

fun warn_calls :: "timestamp list \<Rightarrow> user_id \<Rightarrow> state \<Rightarrow> int list \<times> state" where
  "warn_calls [] uid s = ([], s)"
| "warn_calls (ts # tss) uid s =
     (let (cnt, s1) = warn_user_db ts uid s;
          (cnts, s2) = warn_calls tss uid s1
      in (cnt # cnts, s2))"

subsection \<open>Spam tracker\<close>

text \<open>\<^verbatim>\<open>timedelta(seconds=60)\<close>, in microseconds.\<close>

definition sixty_seconds :: int where
  "sixty_seconds = 60 * 1000000"

text \<open>\<^verbatim>\<open>while dq and dq[0] < cutoff: dq.popleft()\<close>\<close>

fun popleft_older :: "timestamp \<Rightarrow> timestamp list \<Rightarrow> timestamp list" where
  "popleft_older cutoff [] = []"
| "popleft_older cutoff (t # dq) = (if t < cutoff then popleft_older cutoff dq else t # dq)"

text \<open>
  \<^verbatim>\<open>add_message_time\<close>, with \<open>now\<close> the reading of \<^verbatim>\<open>datetime.utcnow()\<close>. Indexing
  the \<^verbatim>\<open>defaultdict\<close> creates an empty deque for a user it has not seen.
\<close>

definition add_message_time :: "timestamp \<Rightarrow> user_id \<Rightarrow> state \<Rightarrow> int \<times> state" where
  "add_message_time now uid s =
     (let dq = (case user_msg_times s uid of None \<Rightarrow> [] | Some d \<Rightarrow> d);
          dq1 = dq @ [now];
          cutoff = now - sixty_seconds;
          dq2 = popleft_older cutoff dq1
      in (int (length dq2), s\<lparr>user_msg_times := (user_msg_times s)(uid \<mapsto> dq2)\<rparr>))"

text \<open>
  A sequence of \<^verbatim>\<open>add_message_time\<close> calls, each a pair of the calling user and the clock
  reading of the call: the state they leave.
\<close>

fun activity_run :: "(user_id \<times> timestamp) list \<Rightarrow> state \<Rightarrow> state" where
  "activity_run [] s = s"
| "activity_run (c # cs) s = activity_run cs (snd (add_message_time (snd c) (fst c) s))"

text \<open>The clock readings of the calls of one user, in call order.\<close>

definition times_of :: "user_id \<Rightarrow> (user_id \<times> timestamp) list \<Rightarrow> timestamp list" where
  "times_of uid cs = map snd (filter (\<lambda>c. fst c = uid) cs)"

text \<open>The deque of a user as the \<^verbatim>\<open>defaultdict\<close> presents it: empty for an unseen user.\<close>

definition window_of :: "user_id \<Rightarrow> state \<Rightarrow> timestamp list" where
  "window_of uid s = (case user_msg_times s uid of None \<Rightarrow> [] | Some d \<Rightarrow> d)"

text \<open>
  Two ways of counting the readings of a window: those strictly newer than a cutoff, and
  those not older than it.
\<close>

definition count_newer_than :: "timestamp \<Rightarrow> timestamp list \<Rightarrow> nat" where
  "count_newer_than cutoff ts = length (filter (\<lambda>t. cutoff < t) ts)"

definition count_not_older_than :: "timestamp \<Rightarrow> timestamp list \<Rightarrow> nat" where
  "count_not_older_than cutoff ts = length (filter (\<lambda>t. cutoff \<le> t) ts)"

text \<open>The warn count of a user as the warns table has it, 0 without a row.\<close>

definition current_warns :: "user_id \<Rightarrow> state \<Rightarrow> int" where
  "current_warns uid s = (case warns s uid of None \<Rightarrow> 0 | Some row \<Rightarrow> fst row)"

subsection \<open>Texts\<close>

text \<open>
  \<^verbatim>\<open>str.lower\<close> on the code points below 256: the letters A to Z and the Latin-1 capitals
  (192 to 222 without the multiplication sign 215) move up by 32, nothing else changes.
\<close>

definition lower_char :: "char \<Rightarrow> char" where
  "lower_char c =
     (let n = (of_char c :: nat)
      in if (65 \<le> n \<and> n \<le> 90) \<or> (192 \<le> n \<and> n \<le> 222 \<and> n \<noteq> 215)
         then char_of (n + 32) else c)"

definition lower :: "string \<Rightarrow> string" where
  "lower t = map lower_char t"

text \<open>The complement of the regex class \<^verbatim>\<open>\S\<close> on the code points below 256.\<close>

definition is_space :: "char \<Rightarrow> bool" where
  "is_space c = ((of_char c :: nat) \<in> {9, 10, 11, 12, 13, 28, 29, 30, 31, 32, 133, 160})"

subsection \<open>Link filter\<close>

text \<open>The greedy \<^verbatim>\<open>\S+\<close>: the longest run of non-space characters at the front.\<close>

definition non_space_run :: "string \<Rightarrow> string" where
  "non_space_run t = takeWhile (\<lambda>c. \<not> is_space c) t"

text \<open>
  \<^verbatim>\<open>LINK_REGEX = re.compile(r"https?://\S+")\<close> matched at the front of \<open>t\<close>: the matched
  text, or \<open>None\<close>. The optional \<^verbatim>\<open>s\<close> is tried first; without it the next character
  has to be the colon.
\<close>

definition match_link :: "string \<Rightarrow> string option" where
  "match_link t =
     (if prefix ''https://'' t \<and> non_space_run (drop 8 t) \<noteq> []
      then Some (''https://'' @ non_space_run (drop 8 t))
      else if prefix ''http://'' t \<and> non_space_run (drop 7 t) \<noteq> []
      then Some (''http://'' @ non_space_run (drop 7 t))
      else None)"

text \<open>
  \<^verbatim>\<open>LINK_REGEX.findall(text)\<close>: the matches from left to right, the search going on
  behind each match.
\<close>

function findall :: "string \<Rightarrow> string list" where
  "findall [] = []"
| "findall (c # cs) =
     (case match_link (c # cs) of
        Some m \<Rightarrow> m # findall (drop (length m) (c # cs))
      | None \<Rightarrow> findall cs)"
  by pat_completeness auto
termination
  by (relation "measure length") (auto simp: match_link_def split: if_splits)

text \<open>
  The loop of \<^verbatim>\<open>contains_allowed_link\<close>:
  \<^verbatim>\<open>for l in links: if l and l.lower() in txt: return True\<close>, then \<^verbatim>\<open>return False\<close>.
\<close>

fun any_allowed :: "string list \<Rightarrow> string \<Rightarrow> bool" where
  "any_allowed [] txt = False"
| "any_allowed (l # ls) txt =
     (if l \<noteq> [] \<and> sublist (lower l) txt then True else any_allowed ls txt)"

definition contains_allowed_link :: "state \<Rightarrow> string \<Rightarrow> bool" where
  "contains_allowed_link s text =
     (let links = list_allowed_links s
      in if links = [] then False
         else (let txt = lower text in any_allowed links txt))"

text \<open>
  The link decision of \<^verbatim>\<open>message_handler\<close> (the lines from \<^verbatim>\<open>text = msg.text.lower()\<close>
  to the test of \<^verbatim>\<open>contains_allowed_link(text)\<close>): a message is disallowed when the
  regex finds a link and no allowed link is present.
\<close>

datatype verdict = Allowed | Disallowed

definition classify :: "state \<Rightarrow> string \<Rightarrow> verdict" where
  "classify s raw =
     (let text = lower raw;
          found_links = findall text
      in if found_links \<noteq> []
         then (if contains_allowed_link s text then Allowed else Disallowed)
         else Allowed)"

text \<open>
  What the pattern says, without the search: \<open>url_match u\<close> holds when the whole of \<open>u\<close>
  is a scheme \<^verbatim>\<open>http\<close> or \<^verbatim>\<open>https\<close>, then \<^verbatim>\<open>://\<close>, then one or more non-space
  characters; \<open>contains_url t\<close> when some contiguous part of \<open>t\<close> is such a text.
\<close>

definition url_match :: "string \<Rightarrow> bool" where
  "url_match u =
     ((take 7 u = ''http://'' \<and> drop 7 u \<noteq> [] \<and> list_all (\<lambda>c. \<not> is_space c) (drop 7 u))
      \<or> (take 8 u = ''https://'' \<and> drop 8 u \<noteq> [] \<and> list_all (\<lambda>c. \<not> is_space c) (drop 8 u)))"

definition contains_url :: "string \<Rightarrow> bool" where
  "contains_url t = list_ex url_match (sublists t)"

subsection \<open>The bot API\<close>

text \<open>
  The texts the bot sends, by template: the warn notice with its number, the two ban
  notices with the user's full name, the two failure notices, the private notice with the
  chat title, the auto-reply about bans, and the welcome with the member's name.
\<close>

datatype notice =
    WarnNotice int
  | SpamBanNotice string
  | FailedToBan
  | NeedBanRights
  | RemovedNotice string
  | LinkBanNotice string
  | BanHelp
  | Welcome string

text \<open>
  The calls made on the bot: \<^verbatim>\<open>delete_message(chat, message)\<close>,
  \<^verbatim>\<open>ban_chat_member(chat, user)\<close>, \<^verbatim>\<open>unban_chat_member(chat, user)\<close>,
  \<^verbatim>\<open>send_message(user, text)\<close>, and \<^verbatim>\<open>reply_text(text)\<close> on the message of a chat.
\<close>

datatype action =
    DeleteMessage int int
  | BanChatMember int user_id
  | UnbanChatMember int user_id
  | SendMessage user_id notice
  | ReplyText int int notice

text \<open>
  A call either succeeds or raises. Which, is the environment's choice: a function of the
  calls made before it in the handler run and of the call itself. \<open>call g a log\<close> makes the
  call after the calls of \<open>log\<close> and appends it, with its outcome, to the log.
\<close>

type_synonym gateway = "action list \<Rightarrow> action \<Rightarrow> bool"
type_synonym call_log = "(action \<times> bool) list"

definition call :: "gateway \<Rightarrow> action \<Rightarrow> call_log \<Rightarrow> bool \<times> call_log" where
  "call g a log = (let ok = g (map fst log) a in (ok, log @ [(a, ok)]))"

text \<open>
  What a handler run reads from outside: the outcomes of its calls on the bot, the reading
  of \<^verbatim>\<open>datetime.utcnow()\<close> in \<^verbatim>\<open>add_message_time\<close>, and the readings of
  \<^verbatim>\<open>CURRENT_TIMESTAMP\<close> in \<^verbatim>\<open>warn_user_db\<close> and in \<^verbatim>\<open>ban_user_db\<close> (a run calls each
  at most once).
\<close>

record env =
  gateway_ok :: gateway
  utcnow :: timestamp
  warn_clock :: timestamp
  ban_clock :: timestamp

text \<open>How a handler ends: it returns, or an exception that nothing catches leaves it.\<close>

datatype outcome = Returned | Raised

text \<open>The configuration read from the process environment at start.\<close>

record config =
  owner_id :: user_id
  allowed_chat_ids :: "int list"
  spam_max :: int

subsection \<open>Handlers\<close>

record member =
  member_id :: user_id
  first_name :: string
  full_name :: string

record join_update =
  join_chat_id :: int
  join_message_id :: int
  new_chat_members :: "member list"

text \<open>\<^verbatim>\<open>m.first_name or m.full_name\<close>\<close>

definition display_name :: "member \<Rightarrow> string" where
  "display_name m = (if first_name m \<noteq> [] then first_name m else full_name m)"

text \<open>
  The loop of \<^verbatim>\<open>new_member_handler\<close> over the members of the update. For a banned member
  the ban and the unban are in one \<^verbatim>\<open>try\<close> whose \<^verbatim>\<open>except\<close> passes: a ban that raises
  skips the unban. The welcome is outside any \<^verbatim>\<open>try\<close>: a reply that raises ends the
  handler.
\<close>

fun greet_members :: "gateway \<Rightarrow> join_update \<Rightarrow> state \<Rightarrow> member list \<Rightarrow> call_log \<Rightarrow> outcome \<times> call_log" where
  "greet_members g u s [] log = (Returned, log)"
| "greet_members g u s (m # ms) log =
     (if is_banned_db (member_id m) s
      then (let (ok1, log1) = call g (BanChatMember (join_chat_id u) (member_id m)) log
            in if ok1
               then (let (ok2, log2) = call g (UnbanChatMember (join_chat_id u) (member_id m)) log1
                     in greet_members g u s ms log2)
               else greet_members g u s ms log1)
      else (let (ok, log1) = call g (ReplyText (join_chat_id u) (join_message_id u)
                                        (Welcome (display_name m))) log
            in if ok then greet_members g u s ms log1 else (Raised, log1)))"

definition new_member_handler :: "gateway \<Rightarrow> join_update \<Rightarrow> state \<Rightarrow> outcome \<times> call_log" where
  "new_member_handler g u s = greet_members g u s (new_chat_members u) []"

text \<open>
  A text message as the handler reads it: \<^verbatim>\<open>chat_id\<close>, \<^verbatim>\<open>message_id\<close>, \<^verbatim>\<open>text\<close>
  (\<open>None\<close> for a message without text), \<^verbatim>\<open>from_user.id\<close>, \<^verbatim>\<open>from_user.full_name\<close> and
  \<^verbatim>\<open>chat.title\<close>.
\<close>

record message =
  msg_chat_id :: int
  msg_message_id :: int
  msg_text :: "string option"
  msg_from_id :: user_id
  msg_from_full_name :: string
  msg_chat_title :: string

text \<open>
  The anti-spam branch of \<^verbatim>\<open>message_handler\<close>, entered when the count is above
  \<^verbatim>\<open>SPAM_MAX\<close>: the warn, the warn notice, and from the third warn on the ban. In the
  \<^verbatim>\<open>try\<close>, \<^verbatim>\<open>ban_user_db\<close> comes after \<^verbatim>\<open>ban_chat_member\<close>, and the \<^verbatim>\<open>except\<close> catches
  what either of the two calls on the bot raises.
\<close>

definition spam_branch :: "env \<Rightarrow> message \<Rightarrow> state \<Rightarrow> outcome \<times> state \<times> call_log" where
  "spam_branch e msg s =
     (let g = gateway_ok e;
          chat = msg_chat_id msg;
          uid = msg_from_id msg;
          (warns, s1) = warn_user_db (warn_clock e) uid s;
          (ok0, log0) = call g (ReplyText chat (msg_message_id msg) (WarnNotice warns)) []
      in if \<not> ok0 then (Raised, s1, log0)
         else if warns \<ge> 3
         then (let (ok1, log1) = call g (BanChatMember chat uid) log0
               in if ok1
                  then (let s2 = ban_user_db (ban_clock e) uid ''spam'' s1;
                            (ok2, log2) = call g (ReplyText chat (msg_message_id msg)
                                                    (SpamBanNotice (msg_from_full_name msg))) log1
                        in if ok2 then (Returned, s2, log2)
                           else (let (ok3, log3) = call g (ReplyText chat (msg_message_id msg)
                                                             FailedToBan) log2
                                 in (if ok3 then Returned else Raised, s2, log3)))
                  else (let (ok3, log2) = call g (ReplyText chat (msg_message_id msg)
                                                    FailedToBan) log1
                        in (if ok3 then Returned else Raised, s1, log2)))
         else (Returned, s1, log0))"

text \<open>
  The keywords of the auto-reply. The source has a third one, in Bengali script; its code
  points are above 255, so no text of this model contains it.
\<close>

definition ban_keywords :: "string list" where
  "ban_keywords = [''remove'', ''ban'']"

text \<open>
  The rest of \<^verbatim>\<open>message_handler\<close>, for a count within the limit: the link check with
  the delete, the ban and the notices, and the auto-reply. The \<^verbatim>\<open>except\<close> of the delete
  and that of the private message pass; that of the ban replies and returns.
\<close>

definition link_branch :: "env \<Rightarrow> message \<Rightarrow> string \<Rightarrow> state \<Rightarrow> outcome \<times> state \<times> call_log" where
  "link_branch e msg raw s =
     (let g = gateway_ok e;
          chat = msg_chat_id msg;
          uid = msg_from_id msg;
          text = lower raw;
          found_links = findall text
      in if found_links \<noteq> []
         then (if contains_allowed_link s text then (Returned, s, [])
               else (let (ok0, log0) = call g (DeleteMessage chat (msg_message_id msg)) [];
                         (ok1, log1) = call g (BanChatMember chat uid) log0
                     in if \<not> ok1
                        then (let (ok2, log2) = call g (ReplyText chat (msg_message_id msg)
                                                          NeedBanRights) log1
                              in (if ok2 then Returned else Raised, s, log2))
                        else (let s1 = ban_user_db (ban_clock e) uid ''posted_disallowed_link'' s;
                                  (ok3, log3) = call g (SendMessage uid
                                                          (RemovedNotice (msg_chat_title msg))) log1;
                                  (ok4, log4) = call g (ReplyText chat (msg_message_id msg)
                                                          (LinkBanNotice (msg_from_full_name msg))) log3
                              in (if ok4 then Returned else Raised, s1, log4))))
         else if list_ex (\<lambda>w. sublist w text) ban_keywords
         then (let (ok, log0) = call g (ReplyText chat (msg_message_id msg) BanHelp) []
               in (if ok then Returned else Raised, s, log0))
         else (Returned, s, []))"

text \<open>
  \<^verbatim>\<open>message_handler\<close>: the update's message (\<open>None\<close> when it has none), the three early
  returns, then the spam count and one of the two branches. The result is how the handler
  ended, the state it left, and its calls on the bot with their outcomes.
\<close>

definition message_handler ::
    "config \<Rightarrow> env \<Rightarrow> message option \<Rightarrow> state \<Rightarrow> outcome \<times> state \<times> call_log" where
  "message_handler cfg e upd s =
     (case upd of
        None \<Rightarrow> (Returned, s, [])
      | Some msg \<Rightarrow>
          (case msg_text msg of
             None \<Rightarrow> (Returned, s, [])
           | Some raw \<Rightarrow>
               if raw = [] then (Returned, s, [])
               else if allowed_chat_ids cfg \<noteq> [] \<and> msg_chat_id msg \<notin> set (allowed_chat_ids cfg)
               then (Returned, s, [])
               else if msg_from_id msg = owner_id cfg then (Returned, s, [])
               else (let (count, s1) = add_message_time (utcnow e) (msg_from_id msg) s
                     in if count > spam_max cfg then spam_branch e msg s1
                        else link_branch e msg raw s1)))"

text \<open>The state a handler run leaves and the calls it made.\<close>

definition state_of :: "outcome \<times> state \<times> call_log \<Rightarrow> state" where
  "state_of r = fst (snd r)"

definition calls_of :: "outcome \<times> state \<times> call_log \<Rightarrow> call_log" where
  "calls_of r = snd (snd r)"

subsection \<open>Notions used in the statements\<close>

text \<open>A text that begins with a link: a scheme, \<^verbatim>\<open>://\<close> and a non-space character.\<close>

definition starts_with_link :: "string \<Rightarrow> bool" where
  "starts_with_link t =
     (\<exists>c rest. \<not> is_space c \<and> (t = ''https://'' @ c # rest \<or> t = ''http://'' @ c # rest))"

text \<open>
  The calls that only the link path of \<open>message_handler\<close> makes: the delete, the private
  message, and the replies about a removal for a link.
\<close>

fun link_action :: "action \<Rightarrow> bool" where
  "link_action (DeleteMessage c m) = True"
| "link_action (SendMessage u n) = True"
| "link_action (ReplyText c m NeedBanRights) = True"
| "link_action (ReplyText c m (LinkBanNotice n)) = True"
| "link_action a = False"

text \<open>What a handler run does to the bans table: nothing, or the upsert of one row.\<close>

fun apply_ban_write ::
    "(user_id \<times> string \<times> timestamp) option \<Rightarrow> (user_id \<rightharpoonup> string \<times> timestamp)
     \<Rightarrow> (user_id \<rightharpoonup> string \<times> timestamp)" where
  "apply_ban_write None b = b"
| "apply_ban_write (Some (u, row)) b = b(u \<mapsto> row)"

text \<open>
  A run, as a function of the bans table it starts from, ignores that table when its
  outcome, its calls and the rest of the state are the same for every table, and the table
  itself undergoes the same write.
\<close>

definition ignores_bans ::
    "((user_id \<rightharpoonup> string \<times> timestamp) \<Rightarrow> outcome \<times> state \<times> call_log) \<Rightarrow> bool" where
  "ignores_bans run =
     (\<exists>out w log s1. \<forall>b. run b = (out, s1\<lparr>bans := apply_ban_write w b\<rparr>, log))"

text \<open>
  The calls for one new member, as C6 describes them: for a member banned in the store, the
  ban call alone when it failed, or the successful ban call followed by the unban call; for
  a member who is not banned, the welcome reply.
\<close>

definition member_block_ok :: "join_update \<Rightarrow> state \<Rightarrow> member \<Rightarrow> call_log \<Rightarrow> bool" where
  "member_block_ok u s m block =
     (if is_banned_db (member_id m) s
      then block = [(BanChatMember (join_chat_id u) (member_id m), False)]
           \<or> (\<exists>ok. block = [(BanChatMember (join_chat_id u) (member_id m), True),
                            (UnbanChatMember (join_chat_id u) (member_id m), ok)])
      else (\<exists>ok. block = [(ReplyText (join_chat_id u) (join_message_id u)
                              (Welcome (display_name m)), ok)]))"

text \<open>A block of calls in which a reply failed.\<close>

definition welcome_failed :: "call_log \<Rightarrow> bool" where
  "welcome_failed block = (\<exists>c k n. (ReplyText c k n, False) \<in> set block)"

subsection \<open>Example inputs\<close>

text \<open>A chat in which the bot may not ban, and one in which every call succeeds.\<close>

fun no_ban_rights :: gateway where
  "no_ban_rights hist (BanChatMember c u) = False"
| "no_ban_rights hist a = True"

definition all_granted :: gateway where
  "all_granted hist a = True"

definition example_config :: "int \<Rightarrow> config" where
  "example_config limit = \<lparr>owner_id = 1, allowed_chat_ids = [], spam_max = limit\<rparr>"

definition example_env :: "gateway \<Rightarrow> env" where
  "example_env g = \<lparr>gateway_ok = g, utcnow = 1000000, warn_clock = 2, ban_clock = 3\<rparr>"

definition example_message :: "string \<Rightarrow> message" where
  "example_message t = \<lparr>msg_chat_id = 100, msg_message_id = 55, msg_text = Some t,
     msg_from_id = 7, msg_from_full_name = ''Eve'', msg_chat_title = ''Group''\<rparr>"

definition example_join :: "member list \<Rightarrow> join_update" where
  "example_join ms = \<lparr>join_chat_id = 100, join_message_id = 60, new_chat_members = ms\<rparr>"

definition example_member :: member where
  "example_member = \<lparr>member_id = 7, first_name = ''Eve'', full_name = ''Eve Example''\<rparr>"

text \<open>A chat in which the welcome reply is refused, and a member who is not banned.\<close>

fun welcome_refused :: gateway where
  "welcome_refused hist (ReplyText c m (Welcome n)) = False"
| "welcome_refused hist a = True"

definition example_clean_member :: member where
  "example_clean_member = \<lparr>member_id = 8, first_name = ''Bob'', full_name = ''Bob Builder''\<rparr>"

text \<open>User 7 with two warns, and user 7 with a ban row.\<close>

definition twice_warned :: state where
  "twice_warned = init_state\<lparr>warns := [7 \<mapsto> (2, 0)]\<rparr>"

definition banned_before :: state where
  "banned_before = init_state\<lparr>bans := [7 \<mapsto> (''spam'', 0)]\<rparr>"

section \<open>The spam tracker\<close>

text \<open>On a sorted deque the eviction loop is a filter.\<close>

lemma popleft_older_sorted:
  "sorted dq \<Longrightarrow> popleft_older cutoff dq = filter (\<lambda>t. cutoff \<le> t) dq"
proof (induction dq)
  case Nil
  show ?case by simp
next
  case (Cons t dq)
  show ?case
  proof (cases "t < cutoff")
    case True
    with Cons show ?thesis by simp
  next
    case False
    with Cons.prems have "\<forall>x\<in>set dq. cutoff \<le> x" by auto
    then have "filter (\<lambda>t. cutoff \<le> t) dq = dq" by simp
    with False show ?thesis by simp
  qed
qed

text \<open>The loop stops at the latest in front of an entry that is not older than the cutoff.\<close>

lemma popleft_older_keeps_last:
  "cutoff \<le> now \<Longrightarrow> \<exists>pre. popleft_older cutoff (dq @ [now]) = pre @ [now]"
  by (induction dq) auto

lemma activity_run_snoc:
  "activity_run (cs @ [c]) s = snd (add_message_time (snd c) (fst c) (activity_run cs s))"
  by (induction cs arbitrary: s) simp_all

lemma times_of_snoc:
  "times_of uid (cs @ [c]) = (if fst c = uid then times_of uid cs @ [snd c] else times_of uid cs)"
  by (simp add: times_of_def)

lemma add_message_time_other:
  "v \<noteq> uid \<Longrightarrow> user_msg_times (snd (add_message_time now uid s)) v = user_msg_times s v"
  by (simp add: add_message_time_def Let_def)

lemma add_message_time_count:
  "fst (add_message_time now uid s) = int (length (window_of uid (snd (add_message_time now uid s))))"
  by (simp add: add_message_time_def window_of_def Let_def)

text \<open>
  The invariant of the tracker. From process start, as long as the clock readings of a
  user's calls do not decrease, the user's deque holds the readings that are at most 60
  seconds older than the last one, in call order. Calls of other users do not touch it.
\<close>

lemma window_invariant:
  "sorted (times_of uid cs) \<Longrightarrow>
   window_of uid (activity_run cs init_state) =
     (if times_of uid cs = [] then []
      else filter (\<lambda>t. last (times_of uid cs) - sixty_seconds \<le> t) (times_of uid cs))"
proof (induction cs rule: rev_induct)
  case Nil
  show ?case by (simp add: window_of_def init_state_def times_of_def)
next
  case (snoc c cs)
  show ?case
  proof (cases "fst c = uid")
    case False
    then have "times_of uid (cs @ [c]) = times_of uid cs"
      by (simp add: times_of_snoc)
    moreover from False
    have "window_of uid (activity_run (cs @ [c]) init_state)
          = window_of uid (activity_run cs init_state)"
      by (simp add: activity_run_snoc window_of_def add_message_time_other)
    ultimately show ?thesis using snoc by simp
  next
    case True
    define ts where "ts = times_of uid cs"
    define now where "now = snd c"
    have tsn: "times_of uid (cs @ [c]) = ts @ [now]"
      using True by (simp add: times_of_snoc ts_def now_def)
    with snoc.prems have "sorted (ts @ [now])" by simp
    then have sts: "sorted ts" and le: "\<forall>t\<in>set ts. t \<le> now"
      by (auto simp: sorted_append)
    have IH: "window_of uid (activity_run cs init_state) =
       (if ts = [] then [] else filter (\<lambda>t. last ts - sixty_seconds \<le> t) ts)"
      using snoc.IH sts by (simp add: ts_def)
    have w: "window_of uid (activity_run (cs @ [c]) init_state)
         = popleft_older (now - sixty_seconds) (window_of uid (activity_run cs init_state) @ [now])"
      using True by (simp add: activity_run_snoc window_of_def add_message_time_def Let_def now_def)
    have "popleft_older (now - sixty_seconds) (window_of uid (activity_run cs init_state) @ [now])
        = filter (\<lambda>t. now - sixty_seconds \<le> t) (ts @ [now])"
    proof (cases "ts = []")
      case True
      then show ?thesis using IH by (simp add: sixty_seconds_def)
    next
      case False
      then have "last ts \<in> set ts" by simp
      with le have ll: "last ts \<le> now" by blast
      have s2: "sorted (filter (\<lambda>t. last ts - sixty_seconds \<le> t) ts @ [now])"
        using sts le by (auto simp: sorted_append intro: sorted_wrt_filter)
      have "filter (\<lambda>t. now - sixty_seconds \<le> t) (filter (\<lambda>t. last ts - sixty_seconds \<le> t) ts)
          = filter (\<lambda>t. now - sixty_seconds \<le> t) ts"
        using ll by (auto intro!: filter_cong)
      then show ?thesis
        using IH False popleft_older_sorted [OF s2, of "now - sixty_seconds"] by simp
    qed
    with w tsn show ?thesis by simp
  qed
qed

text \<open>
  C1, as the code has it. The calls \<open>cs\<close> of any users are made from process start, then
  user \<open>uid\<close> calls at \<open>tn\<close>; the readings of this user's calls do not decrease. The count
  returned is the number of this user's readings \<open>t\<close> with \<open>tn - 60s \<le> t\<close>: a reading
  exactly 60 seconds old is still counted.
\<close>

theorem record_activity_count:
  assumes "sorted (times_of uid (cs @ [(uid, tn)]))"
  shows "fst (add_message_time tn uid (activity_run cs init_state))
         = int (count_not_older_than (tn - sixty_seconds) (times_of uid (cs @ [(uid, tn)])))"
proof -
  have "fst (add_message_time tn uid (activity_run cs init_state))
        = int (length (window_of uid (activity_run (cs @ [(uid, tn)]) init_state)))"
    by (simp add: add_message_time_count activity_run_snoc)
  also have "window_of uid (activity_run (cs @ [(uid, tn)]) init_state)
        = filter (\<lambda>t. tn - sixty_seconds \<le> t) (times_of uid (cs @ [(uid, tn)]))"
    using window_invariant [OF assms] by (simp add: times_of_snoc)
  finally show ?thesis by (simp add: count_not_older_than_def)
qed

text \<open>
  User 1 at 0s, user 2 in between, user 1 at 30s and at 70s: the last call counts the
  readings 30s and 70s.
\<close>

theorem record_activity_count_witness:
  "sorted (times_of 1 ([(1, 0), (2, 5), (1, 30000000)] @ [(1, 70000000)]))
   \<and> fst (add_message_time 70000000 1 (activity_run [(1, 0), (2, 5), (1, 30000000)] init_state)) = 2"
  using record_activity_count [of 1 "[(1, 0), (2, 5), (1, 30000000)]" 70000000]
  by (simp add: times_of_def count_not_older_than_def sixty_seconds_def)

text \<open>
  C1 as the claim words it counts the readings strictly newer than \<open>tn - 60s\<close>. Two calls
  of one user exactly 60 seconds apart: the second returns 2, and only one reading is
  strictly newer than the cutoff.
\<close>

theorem record_activity_boundary_counterexample:
  "sorted (times_of 1 ([(1, 0)] @ [(1, 60000000)]))
   \<and> fst (add_message_time 60000000 1 (activity_run [(1, 0)] init_state))
       \<noteq> int (count_newer_than (60000000 - sixty_seconds) (times_of 1 ([(1, 0)] @ [(1, 60000000)])))"
  by (simp add: times_of_def count_newer_than_def sixty_seconds_def add_message_time_def
      init_state_def)

text \<open>
  C9. In every state and for every reading of the clock, \<open>add_message_time\<close> returns at
  least 1, and the reading just appended is the last entry of the user's deque.
\<close>

theorem record_activity_positive:
  "1 \<le> fst (add_message_time now uid s)
   \<and> (\<exists>pre. user_msg_times (snd (add_message_time now uid s)) uid = Some (pre @ [now]))"
proof -
  define dq where "dq = (case user_msg_times s uid of None \<Rightarrow> [] | Some d \<Rightarrow> d)"
  have "now - sixty_seconds \<le> now" by (simp add: sixty_seconds_def)
  then obtain pre where "popleft_older (now - sixty_seconds) (dq @ [now]) = pre @ [now]"
    using popleft_older_keeps_last by blast
  then show ?thesis by (simp add: add_message_time_def Let_def dq_def)
qed

section \<open>Properties of the store\<close>

text \<open>
  C7. For every user, whatever the bans table held before: after \<open>ban_user_db\<close> the user
  is banned, and after \<open>unban_user_db\<close> the user is not banned.
\<close>

theorem ban_unban_roundtrip:
  "is_banned_db uid (ban_user_db ts uid reason s)
   \<and> \<not> is_banned_db uid (unban_user_db uid s)"
  by (simp add: is_banned_db_def ban_user_db_def unban_user_db_def)

lemma warn_user_db_count:
  "fst (warn_user_db ts uid s) = current_warns uid s + 1"
  "current_warns uid (snd (warn_user_db ts uid s)) = current_warns uid s + 1"
  by (simp_all add: warn_user_db_def current_warns_def Let_def split: option.splits)

text \<open>A run of warns counts on from the count the table has.\<close>

lemma warn_calls_counts:
  "fst (warn_calls tss uid s) = [current_warns uid s + 1 .. current_warns uid s + int (length tss)]"
proof (induction tss arbitrary: s)
  case Nil
  show ?case by simp
next
  case (Cons ts tss)
  have "fst (warn_calls (ts # tss) uid s)
        = fst (warn_user_db ts uid s) # fst (warn_calls tss uid (snd (warn_user_db ts uid s)))"
    by (simp add: case_prod_beta Let_def)
  also have "\<dots> = (current_warns uid s + 1)
                  # [current_warns uid s + 1 + 1 .. current_warns uid s + 1 + int (length tss)]"
    by (simp add: Cons.IH warn_user_db_count)
  also have "\<dots> = [current_warns uid s + 1 .. current_warns uid s + 1 + int (length tss)]"
    by (rule upto_rec1 [symmetric]) simp
  finally show ?case by (simp add: add.commute add.left_commute)
qed

text \<open>
  C5. For a user without a warn row, \<open>k\<close> calls of \<open>warn_user_db\<close> in a row return
  \<open>1, 2, \<dots>, k\<close>; and for every user, \<open>warn_user_db\<close> right after \<open>reset_warns_db\<close>
  returns 1.
\<close>

theorem record_warn_sequence:
  "(warns s uid = None \<longrightarrow> fst (warn_calls tss uid s) = [1 .. int (length tss)])
   \<and> fst (warn_user_db ts uid (reset_warns_db uid s)) = 1"
  by (simp add: warn_calls_counts current_warns_def warn_user_db_def reset_warns_db_def)

theorem record_warn_sequence_witness:
  "warns init_state 5 = None \<and> fst (warn_calls [10, 20, 30] 5 init_state) = [1, 2, 3]"
  using record_warn_sequence [of init_state 5 "[10, 20, 30]"]
  by (simp add: init_state_def upto_rec1)

section \<open>The link filter\<close>

text \<open>
  Lowering a text twice is lowering it once; the handler lowers the text and
  \<open>contains_allowed_link\<close> lowers it again.
\<close>

lemma lower_char_idem: "lower_char (lower_char c) = lower_char c"
  by (auto simp: lower_char_def Let_def)

lemma lower_idem: "lower (lower t) = lower t"
  by (simp add: lower_def lower_char_idem)

lemma any_allowed_iff:
  "any_allowed ls txt \<longleftrightarrow> (\<exists>l\<in>set ls. l \<noteq> [] \<and> sublist (lower l) txt)"
  by (induction ls) auto

lemma contains_allowed_link_iff:
  "contains_allowed_link s text
   \<longleftrightarrow> (\<exists>l\<in>set (list_allowed_links s). l \<noteq> [] \<and> sublist (lower l) (lower text))"
  by (auto simp: contains_allowed_link_def Let_def any_allowed_iff)

text \<open>
  The regex finds a link in a text exactly when some part of the text matches the
  pattern: \<open>findall\<close> is not empty if and only if \<open>contains_url\<close> holds.
\<close>

lemma non_space_run_nonempty:
  "non_space_run t \<noteq> [] \<longleftrightarrow> (\<exists>c rest. t = c # rest \<and> \<not> is_space c)"
  by (cases t) (auto simp: non_space_run_def)

lemma match_link_iff: "match_link t \<noteq> None \<longleftrightarrow> starts_with_link t"
proof
  assume "match_link t \<noteq> None"
  then show "starts_with_link t"
    unfolding match_link_def starts_with_link_def non_space_run_nonempty prefix_def
    by (auto split: if_splits)
next
  assume "starts_with_link t"
  then show "match_link t \<noteq> None"
    unfolding match_link_def starts_with_link_def non_space_run_nonempty
    by auto
qed

lemma findall_nonempty_iff:
  "findall t \<noteq> [] \<longleftrightarrow> (\<exists>pre suf. t = pre @ suf \<and> match_link suf \<noteq> None)"
proof (induction t)
  case Nil
  show ?case by (simp add: match_link_def)
next
  case (Cons c cs)
  show ?case
  proof (cases "match_link (c # cs)")
    case (Some m)
    then have "\<exists>pre suf. c # cs = pre @ suf \<and> match_link suf \<noteq> None"
      by (intro exI [of _ "[]"] exI [of _ "c # cs"]) simp
    with Some show ?thesis by simp
  next
    case None
    have "(\<exists>pre suf. c # cs = pre @ suf \<and> match_link suf \<noteq> None)
          \<longleftrightarrow> (\<exists>pre suf. cs = pre @ suf \<and> match_link suf \<noteq> None)"
    proof
      assume "\<exists>pre suf. c # cs = pre @ suf \<and> match_link suf \<noteq> None"
      then obtain pre suf where ps: "c # cs = pre @ suf" "match_link suf \<noteq> None" by blast
      with None have "pre \<noteq> []" by (cases pre) auto
      then obtain pre' where "pre = c # pre'" using ps(1) by (cases pre) auto
      with ps show "\<exists>pre suf. cs = pre @ suf \<and> match_link suf \<noteq> None" by auto
    next
      assume "\<exists>pre suf. cs = pre @ suf \<and> match_link suf \<noteq> None"
      then obtain pre suf where "cs = pre @ suf" "match_link suf \<noteq> None" by blast
      then have "c # cs = (c # pre) @ suf \<and> match_link suf \<noteq> None" by simp
      then show "\<exists>pre suf. c # cs = pre @ suf \<and> match_link suf \<noteq> None" by blast
    qed
    with None Cons show ?thesis by simp
  qed
qed

lemma url_match_starts: "url_match u \<Longrightarrow> starts_with_link (u @ post)"
proof -
  assume "url_match u"
  then consider
      "take 7 u = ''http://''" "drop 7 u \<noteq> []" "list_all (\<lambda>c. \<not> is_space c) (drop 7 u)"
    | "take 8 u = ''https://''" "drop 8 u \<noteq> []" "list_all (\<lambda>c. \<not> is_space c) (drop 8 u)"
    unfolding url_match_def by blast
  then show ?thesis
  proof cases
    case 1
    then obtain c b where cb: "drop 7 u = c # b" "\<not> is_space c" by (cases "drop 7 u") auto
    have "u = take 7 u @ drop 7 u" by simp
    with 1 cb have "u @ post = ''http://'' @ c # (b @ post)" by (metis append_Cons append_assoc)
    with cb show ?thesis unfolding starts_with_link_def by blast
  next
    case 2
    then obtain c b where cb: "drop 8 u = c # b" "\<not> is_space c" by (cases "drop 8 u") auto
    have "u = take 8 u @ drop 8 u" by simp
    with 2 cb have "u @ post = ''https://'' @ c # (b @ post)" by (metis append_Cons append_assoc)
    with cb show ?thesis unfolding starts_with_link_def by blast
  qed
qed

lemma starts_url_match: "starts_with_link t \<Longrightarrow> \<exists>u post. t = u @ post \<and> url_match u"
proof -
  assume "starts_with_link t"
  then obtain c rest where c: "\<not> is_space c"
    and t: "t = ''https://'' @ c # rest \<or> t = ''http://'' @ c # rest"
    unfolding starts_with_link_def by blast
  from t show ?thesis
  proof
    assume "t = ''https://'' @ c # rest"
    then have "t = (''https://'' @ [c]) @ rest" by simp
    moreover have "url_match (''https://'' @ [c])" using c by (simp add: url_match_def)
    ultimately show ?thesis by blast
  next
    assume "t = ''http://'' @ c # rest"
    then have "t = (''http://'' @ [c]) @ rest" by simp
    moreover have "url_match (''http://'' @ [c])" using c by (simp add: url_match_def)
    ultimately show ?thesis by blast
  qed
qed

lemma contains_url_iff:
  "contains_url t \<longleftrightarrow> (\<exists>pre suf. t = pre @ suf \<and> starts_with_link suf)"
proof
  assume "contains_url t"
  then obtain u where "sublist u t" "url_match u"
    by (auto simp: contains_url_def list_ex_iff)
  then obtain pre post where "t = pre @ u @ post" "url_match u" by (auto simp: sublist_def)
  then show "\<exists>pre suf. t = pre @ suf \<and> starts_with_link suf"
    using url_match_starts by blast
next
  assume "\<exists>pre suf. t = pre @ suf \<and> starts_with_link suf"
  then obtain pre suf where t: "t = pre @ suf" and "starts_with_link suf" by blast
  then obtain u post where "suf = u @ post" "url_match u" using starts_url_match by blast
  with t have "sublist u t" "url_match u" by (auto simp: sublist_def)
  then show "contains_url t" by (auto simp: contains_url_def list_ex_iff)
qed

lemma findall_contains_url: "findall t \<noteq> [] \<longleftrightarrow> contains_url t"
  by (simp only: findall_nonempty_iff contains_url_iff match_link_iff)

text \<open>
  The pattern is case-sensitive and is matched on the lowered text: an upper-case scheme
  is found by the handler, not by the pattern on the text as sent.
\<close>

lemma url_pattern_after_lowering:
  "contains_url (lower ''HTTP://X'') \<and> \<not> contains_url ''HTTP://X''"
  by code_simp

text \<open>
  C3, as the code has it. For every message text and allow-list, the verdict is
  \<open>Allowed\<close> if and only if the lowered text contains no part matching the URL pattern,
  or some non-empty entry of the allow-list, lowered, is a part of the lowered text; the
  verdict is \<open>Disallowed\<close> otherwise.
\<close>

theorem classify_allowed_iff:
  "classify s raw = Allowed
   \<longleftrightarrow> (\<not> contains_url (lower raw)
        \<or> (\<exists>l\<in>set (list_allowed_links s). l \<noteq> [] \<and> sublist (lower l) (lower raw)))"
  by (simp add: classify_def Let_def contains_allowed_link_iff lower_idem findall_contains_url)

text \<open>
  The allow-list of the scenario, \<^verbatim>\<open>example.com/ok\<close>, and a message with a link
  under it.
\<close>

theorem classify_allowed_iff_witness:
  "(\<exists>l\<in>set (list_allowed_links (init_state\<lparr>links := [(''example.com/ok'', 0)]\<rparr>)).
      l \<noteq> [] \<and> sublist (lower l) (lower ''check https://example.com/ok/page''))
   \<and> classify (init_state\<lparr>links := [(''example.com/ok'', 0)]\<rparr>)
        ''check https://example.com/ok/page'' = Allowed"
proof -
  have "sublist (lower ''example.com/ok'') (lower ''check https://example.com/ok/page'')"
    by code_simp
  then have h: "\<exists>l\<in>set (list_allowed_links (init_state\<lparr>links := [(''example.com/ok'', 0)]\<rparr>)).
      l \<noteq> [] \<and> sublist (lower l) (lower ''check https://example.com/ok/page'')"
    by (simp add: list_allowed_links_def init_state_def)
  with classify_allowed_iff [of "init_state\<lparr>links := [(''example.com/ok'', 0)]\<rparr>"
      "''check https://example.com/ok/page''"]
  show ?thesis by blast
qed

text \<open>
  C3 as the claim words it lets any entry count. With the empty string as the only entry
  of the allow-list, the empty string is a part of the lowered text \<^verbatim>\<open>http://x\<close>, and
  the verdict is \<open>Disallowed\<close>.
\<close>

theorem classify_empty_entry_counterexample:
  "contains_url ''http://x''
   \<and> sublist (lower '''') (lower ''http://x'')
   \<and> '''' \<in> set (list_allowed_links (init_state\<lparr>links := [('''', 0)]\<rparr>))
   \<and> classify (init_state\<lparr>links := [('''', 0)]\<rparr>) ''http://x'' = Disallowed"
  by code_simp

text \<open>
  C10. Empty entries of the allow-list are ignored: the verdict with them is the verdict
  without them, and a text with a URL is \<open>Disallowed\<close> when every entry is empty or,
  lowered, is no part of the lowered text.
\<close>

theorem empty_entry_ignored:
  "classify (s\<lparr>links := filter (\<lambda>row. fst row \<noteq> []) (links s)\<rparr>) raw = classify s raw
   \<and> (contains_url (lower raw)
        \<and> (\<forall>l\<in>set (list_allowed_links s). l = [] \<or> \<not> sublist (lower l) (lower raw))
      \<longrightarrow> classify s raw = Disallowed)"
proof -
  have "list_allowed_links (s\<lparr>links := filter (\<lambda>row. fst row \<noteq> []) (links s)\<rparr>)
        = filter (\<lambda>l. l \<noteq> []) (list_allowed_links s)"
    by (simp add: list_allowed_links_def filter_map comp_def)
  then have "contains_allowed_link (s\<lparr>links := filter (\<lambda>row. fst row \<noteq> []) (links s)\<rparr>) t
        = contains_allowed_link s t" for t
    by (auto simp: contains_allowed_link_iff)
  then have "classify (s\<lparr>links := filter (\<lambda>row. fst row \<noteq> []) (links s)\<rparr>) raw = classify s raw"
    by (simp add: classify_def Let_def)
  moreover have "contains_url (lower raw)
        \<and> (\<forall>l\<in>set (list_allowed_links s). l = [] \<or> \<not> sublist (lower l) (lower raw))
      \<longrightarrow> classify s raw = Disallowed"
    by (auto simp: classify_def Let_def contains_allowed_link_iff lower_idem findall_contains_url)
  ultimately show ?thesis by blast
qed

text \<open>
  An allow-list with an empty entry and \<^verbatim>\<open>example.com/ok\<close>, and the message of the
  scenario with a link elsewhere.
\<close>

theorem empty_entry_ignored_witness:
  "contains_url (lower ''check https://evil.example'')
   \<and> list_allowed_links (init_state\<lparr>links := [('''', 0), (''example.com/ok'', 0)]\<rparr>)
       = ['''', ''example.com/ok'']
   \<and> \<not> sublist (lower ''example.com/ok'') (lower ''check https://evil.example'')
   \<and> classify (init_state\<lparr>links := [('''', 0), (''example.com/ok'', 0)]\<rparr>)
       ''check https://evil.example'' = Disallowed"
proof -
  have u: "contains_url (lower ''check https://evil.example'')"
    by code_simp
  have n: "\<not> sublist (lower ''example.com/ok'') (lower ''check https://evil.example'')"
    by code_simp
  have l: "list_allowed_links (init_state\<lparr>links := [('''', 0), (''example.com/ok'', 0)]\<rparr>)
       = ['''', ''example.com/ok'']"
    by (simp add: list_allowed_links_def init_state_def)
  have a: "\<forall>l\<in>set (list_allowed_links (init_state\<lparr>links := [('''', 0), (''example.com/ok'', 0)]\<rparr>)).
         l = [] \<or> \<not> sublist (lower l) (lower ''check https://evil.example'')"
    using n by (simp add: l)
  from u a empty_entry_ignored [of "init_state\<lparr>links := [('''', 0), (''example.com/ok'', 0)]\<rparr>"
      "''check https://evil.example''"]
  have "classify (init_state\<lparr>links := [('''', 0), (''example.com/ok'', 0)]\<rparr>)
       ''check https://evil.example'' = Disallowed"
    by blast
  with u l n show ?thesis by blast
qed

section \<open>The handlers\<close>

text \<open>
  The link branch deletes the message exactly when the verdict of \<open>classify\<close> is
  \<open>Disallowed\<close>.
\<close>

lemma link_branch_deletes_iff:
  "(\<exists>ok. (DeleteMessage (msg_chat_id msg) (msg_message_id msg), ok)
            \<in> set (snd (snd (link_branch e msg raw s))))
   \<longleftrightarrow> classify s raw = Disallowed"
  by (auto simp: link_branch_def classify_def call_def Let_def split: if_splits)

text \<open>
  Neither the spam tracker nor the warn writes the bans table.
\<close>

lemma add_message_time_bans [simp]: "bans (snd (add_message_time now uid s)) = bans s"
  by (simp add: add_message_time_def Let_def)

lemma warn_user_db_bans [simp]: "bans (snd (warn_user_db ts uid s)) = bans s"
  by (simp add: warn_user_db_def Let_def split: option.splits)

lemma spam_branch_ban_record:
  "((BanChatMember c u, False) \<in> set (calls_of (spam_branch e msg s))
      \<longrightarrow> bans (state_of (spam_branch e msg s)) = bans s)
   \<and> ((BanChatMember c u, True) \<in> set (calls_of (spam_branch e msg s))
      \<longrightarrow> bans (state_of (spam_branch e msg s)) = (bans s)(u \<mapsto> (''spam'', ban_clock e)))"
  by (auto simp: spam_branch_def call_def Let_def calls_of_def state_of_def ban_user_db_def
      case_prod_beta split: if_splits)

lemma link_branch_ban_record:
  "((BanChatMember c u, False) \<in> set (calls_of (link_branch e msg raw s))
      \<longrightarrow> bans (state_of (link_branch e msg raw s)) = bans s)
   \<and> ((BanChatMember c u, True) \<in> set (calls_of (link_branch e msg raw s))
      \<longrightarrow> bans (state_of (link_branch e msg raw s))
           = (bans s)(u \<mapsto> (''posted_disallowed_link'', ban_clock e)))"
  by (auto simp: link_branch_def call_def Let_def calls_of_def state_of_def ban_user_db_def
      case_prod_beta split: if_splits)

text \<open>
  What \<open>message_handler\<close> does to the bans table. In both \<^verbatim>\<open>try\<close> blocks \<^verbatim>\<open>ban_user_db\<close>
  comes after \<^verbatim>\<open>ban_chat_member\<close>: when the ban call on the bot fails, the table is as it
  was before the message; when it succeeds, the table has the row of the sender with the
  reason \<^verbatim>\<open>spam\<close> or \<^verbatim>\<open>posted_disallowed_link\<close>.
\<close>

lemma ban_record_follows_gateway:
  "((BanChatMember c u, False) \<in> set (calls_of (message_handler cfg e upd s))
      \<longrightarrow> bans (state_of (message_handler cfg e upd s)) = bans s)
   \<and> ((BanChatMember c u, True) \<in> set (calls_of (message_handler cfg e upd s))
      \<longrightarrow> bans (state_of (message_handler cfg e upd s)) = (bans s)(u \<mapsto> (''spam'', ban_clock e))
          \<or> bans (state_of (message_handler cfg e upd s))
             = (bans s)(u \<mapsto> (''posted_disallowed_link'', ban_clock e)))"
proof (cases "\<exists>msg raw. upd = Some msg \<and> msg_text msg = Some raw \<and> raw \<noteq> []
    \<and> \<not> (allowed_chat_ids cfg \<noteq> [] \<and> msg_chat_id msg \<notin> set (allowed_chat_ids cfg))
    \<and> msg_from_id msg \<noteq> owner_id cfg")
  case False
  then have "message_handler cfg e upd s = (Returned, s, [])"
    by (auto simp: message_handler_def split: option.splits)
  then show ?thesis by (simp add: calls_of_def state_of_def)
next
  case True
  then obtain msg raw where m: "upd = Some msg" "msg_text msg = Some raw" "raw \<noteq> []"
    "\<not> (allowed_chat_ids cfg \<noteq> [] \<and> msg_chat_id msg \<notin> set (allowed_chat_ids cfg))"
    "msg_from_id msg \<noteq> owner_id cfg" by blast
  define s1 where "s1 = snd (add_message_time (utcnow e) (msg_from_id msg) s)"
  have b: "bans s1 = bans s" by (simp add: s1_def)
  show ?thesis
  proof (cases "spam_max cfg < fst (add_message_time (utcnow e) (msg_from_id msg) s)")
    case True
    with m have "message_handler cfg e upd s = spam_branch e msg s1"
      by (auto simp: message_handler_def s1_def case_prod_beta)
    then show ?thesis using spam_branch_ban_record [of c u e msg s1] b by simp
  next
    case False
    with m have "message_handler cfg e upd s = link_branch e msg raw s1"
      by (auto simp: message_handler_def s1_def case_prod_beta)
    then show ?thesis using link_branch_ban_record [of c u e msg raw s1] b by simp
  qed
qed

text \<open>
  C2. The claim has the ban row of the sender in the store whenever the handler decides to
  ban, also when the ban call on the bot fails; the owner command \<^verbatim>\<open>cmd_ban\<close> works
  this way, it calls \<^verbatim>\<open>ban_user_db\<close> before \<^verbatim>\<open>ban_chat_member\<close>. \<open>message_handler\<close> does
  not. In a chat without ban rights, the third warn of user 7 and a disallowed link of user 7
  each end with the failure notice and without a ban row for user 7.
\<close>

theorem failed_ban_leaves_no_ban_row:
  "calls_of (message_handler (example_config 0) (example_env no_ban_rights)
              (Some (example_message ''hello'')) twice_warned)
     = [(ReplyText 100 55 (WarnNotice 3), True), (BanChatMember 100 7, False),
        (ReplyText 100 55 FailedToBan, True)]
   \<and> \<not> is_banned_db 7 (state_of (message_handler (example_config 0) (example_env no_ban_rights)
                 (Some (example_message ''hello'')) twice_warned))
   \<and> calls_of (message_handler (example_config 20) (example_env no_ban_rights)
                 (Some (example_message ''check https://evil.example'')) init_state)
     = [(DeleteMessage 100 55, True), (BanChatMember 100 7, False),
        (ReplyText 100 55 NeedBanRights, True)]
   \<and> \<not> is_banned_db 7 (state_of (message_handler (example_config 20) (example_env no_ban_rights)
                 (Some (example_message ''check https://evil.example'')) init_state))"
  by code_simp

lemma spam_branch_no_link_action:
  "(a, ok) \<in> set (calls_of (spam_branch e msg s)) \<Longrightarrow> \<not> link_action a"
  by (auto simp: spam_branch_def call_def Let_def calls_of_def case_prod_beta split: if_splits)

lemma spam_branch_text_links:
  "spam_branch e (msg\<lparr>msg_text := t\<rparr>) (s\<lparr>links := ls\<rparr>)
   = (fst (spam_branch e msg s), (state_of (spam_branch e msg s))\<lparr>links := ls\<rparr>,
      calls_of (spam_branch e msg s))"
proof -
  have w: "warn_user_db ts uid (s\<lparr>links := ls\<rparr>)
           = (fst (warn_user_db ts uid s), (snd (warn_user_db ts uid s))\<lparr>links := ls\<rparr>)" for ts uid
    by (simp add: warn_user_db_def Let_def split: option.splits)
  have b: "ban_user_db ts uid r (s'\<lparr>links := ls\<rparr>) = (ban_user_db ts uid r s')\<lparr>links := ls\<rparr>"
    for ts uid r s'
    by (simp add: ban_user_db_def)
  show ?thesis
    unfolding spam_branch_def call_def Let_def calls_of_def state_of_def case_prod_beta w
    by (simp add: b)
qed

lemma add_message_time_links:
  "add_message_time now uid (s\<lparr>links := ls\<rparr>)
   = (fst (add_message_time now uid s), (snd (add_message_time now uid s))\<lparr>links := ls\<rparr>)"
  by (simp add: add_message_time_def Let_def)

text \<open>
  C4. When the count returned by \<open>add_message_time\<close> is above \<^verbatim>\<open>SPAM_MAX\<close>, the
  handler makes no call of the link path (no delete among them), writes no ban row other
  than one with the reason \<^verbatim>\<open>spam\<close>, and does the same whatever the text of the message
  and whatever the links table: the link check is not evaluated.
\<close>

theorem spam_skips_link_check:
  assumes "spam_max cfg < fst (add_message_time (utcnow e) (msg_from_id msg) s)"
  shows "(\<forall>a ok. (a, ok) \<in> set (calls_of (message_handler cfg e (Some msg) s)) \<longrightarrow> \<not> link_action a)
    \<and> (\<forall>u. bans (state_of (message_handler cfg e (Some msg) s)) u = bans s u
           \<or> bans (state_of (message_handler cfg e (Some msg) s)) u = Some (''spam'', ban_clock e))
    \<and> (\<forall>raw raw' ls. msg_text msg = Some raw \<and> raw \<noteq> [] \<and> raw' \<noteq> [] \<longrightarrow>
          message_handler cfg e (Some (msg\<lparr>msg_text := Some raw'\<rparr>)) (s\<lparr>links := ls\<rparr>)
          = (fst (message_handler cfg e (Some msg) s),
             (state_of (message_handler cfg e (Some msg) s))\<lparr>links := ls\<rparr>,
             calls_of (message_handler cfg e (Some msg) s)))"
proof -
  define s1 where "s1 = snd (add_message_time (utcnow e) (msg_from_id msg) s)"
  have b: "bans s1 = bans s" by (simp add: s1_def)
  have mh: "message_handler cfg e (Some msg) s = spam_branch e msg s1
            \<or> message_handler cfg e (Some msg) s = (Returned, s, [])"
    using assms by (auto simp: message_handler_def s1_def case_prod_beta split: option.splits)
  have 1: "\<forall>a ok. (a, ok) \<in> set (calls_of (message_handler cfg e (Some msg) s)) \<longrightarrow> \<not> link_action a"
    using mh spam_branch_no_link_action [of _ _ e msg s1] by (auto simp: calls_of_def)
  have 2: "\<forall>u. bans (state_of (message_handler cfg e (Some msg) s)) u = bans s u
           \<or> bans (state_of (message_handler cfg e (Some msg) s)) u = Some (''spam'', ban_clock e)"
  proof
    fix u
    from mh show "bans (state_of (message_handler cfg e (Some msg) s)) u = bans s u
           \<or> bans (state_of (message_handler cfg e (Some msg) s)) u = Some (''spam'', ban_clock e)"
    proof
      assume "message_handler cfg e (Some msg) s = spam_branch e msg s1"
      then show ?thesis using b
        by (auto simp: spam_branch_def call_def Let_def state_of_def case_prod_beta
            ban_user_db_def split: if_splits)
    next
      assume "message_handler cfg e (Some msg) s = (Returned, s, [])"
      then show ?thesis by (simp add: state_of_def)
    qed
  qed
  have 3: "\<forall>raw raw' ls. msg_text msg = Some raw \<and> raw \<noteq> [] \<and> raw' \<noteq> [] \<longrightarrow>
          message_handler cfg e (Some (msg\<lparr>msg_text := Some raw'\<rparr>)) (s\<lparr>links := ls\<rparr>)
          = (fst (message_handler cfg e (Some msg) s),
             (state_of (message_handler cfg e (Some msg) s))\<lparr>links := ls\<rparr>,
             calls_of (message_handler cfg e (Some msg) s))"
    using assms
    by (auto simp: message_handler_def add_message_time_links spam_branch_text_links
        state_of_def calls_of_def case_prod_beta)
  from 1 2 3 show ?thesis by blast
qed

text \<open>
  With a limit of 0 the first message of user 7 is over the limit; it carries a link that
  is not allowed, and the handler only warns and bans for spam.
\<close>

theorem spam_skips_link_check_witness:
  "spam_max (example_config 0)
     < fst (add_message_time (utcnow (example_env all_granted))
              (msg_from_id (example_message ''check https://evil.example'')) twice_warned)
   \<and> calls_of (message_handler (example_config 0) (example_env all_granted)
                 (Some (example_message ''check https://evil.example'')) twice_warned)
       = [(ReplyText 100 55 (WarnNotice 3), True), (BanChatMember 100 7, True),
          (ReplyText 100 55 (SpamBanNotice ''Eve''), True)]
   \<and> \<not> link_action (ReplyText 100 55 (WarnNotice 3))
   \<and> \<not> link_action (BanChatMember 100 7)
   \<and> \<not> link_action (ReplyText 100 55 (SpamBanNotice ''Eve''))
   \<and> msg_text (example_message ''check https://evil.example'') = Some ''check https://evil.example''
   \<and> calls_of (message_handler (example_config 0) (example_env all_granted)
                 (Some ((example_message ''check https://evil.example'')\<lparr>msg_text := Some ''hello''\<rparr>))
                 (twice_warned\<lparr>links := [(''evil.example'', 0)]\<rparr>))
       = [(ReplyText 100 55 (WarnNotice 3), True), (BanChatMember 100 7, True),
          (ReplyText 100 55 (SpamBanNotice ''Eve''), True)]"
proof -
  have h: "spam_max (example_config 0)
     < fst (add_message_time (utcnow (example_env all_granted))
              (msg_from_id (example_message ''check https://evil.example'')) twice_warned)"
    by code_simp
  have c: "calls_of (message_handler (example_config 0) (example_env all_granted)
                 (Some (example_message ''check https://evil.example'')) twice_warned)
       = [(ReplyText 100 55 (WarnNotice 3), True), (BanChatMember 100 7, True),
          (ReplyText 100 55 (SpamBanNotice ''Eve''), True)]"
    by code_simp
  have t: "msg_text (example_message ''check https://evil.example'')
           = Some ''check https://evil.example''"
    by (simp add: example_message_def)
  note inst = spam_skips_link_check [OF h]
  from inst
  have "\<forall>a ok. (a, ok) \<in> set (calls_of (message_handler (example_config 0) (example_env all_granted)
                 (Some (example_message ''check https://evil.example'')) twice_warned))
          \<longrightarrow> \<not> link_action a"
    by blast
  with c have l: "\<not> link_action (ReplyText 100 55 (WarnNotice 3))
     \<and> \<not> link_action (BanChatMember 100 7)
     \<and> \<not> link_action (ReplyText 100 55 (SpamBanNotice ''Eve''))"
    by simp
  from inst t
  have "message_handler (example_config 0) (example_env all_granted)
          (Some ((example_message ''check https://evil.example'')\<lparr>msg_text := Some ''hello''\<rparr>))
          (twice_warned\<lparr>links := [(''evil.example'', 0)]\<rparr>)
        = (fst (message_handler (example_config 0) (example_env all_granted)
                  (Some (example_message ''check https://evil.example'')) twice_warned),
           (state_of (message_handler (example_config 0) (example_env all_granted)
                  (Some (example_message ''check https://evil.example'')) twice_warned))
             \<lparr>links := [(''evil.example'', 0)]\<rparr>,
           calls_of (message_handler (example_config 0) (example_env all_granted)
                  (Some (example_message ''check https://evil.example'')) twice_warned))"
    by simp
  then have "calls_of (message_handler (example_config 0) (example_env all_granted)
                 (Some ((example_message ''check https://evil.example'')\<lparr>msg_text := Some ''hello''\<rparr>))
                 (twice_warned\<lparr>links := [(''evil.example'', 0)]\<rparr>))
       = calls_of (message_handler (example_config 0) (example_env all_granted)
                  (Some (example_message ''check https://evil.example'')) twice_warned)"
    by (simp add: calls_of_def)
  with h c l t show ?thesis by simp
qed

text \<open>
  The calls of the loop, member by member. The calls appended by \<open>greet_members\<close> are the
  blocks of the members it handled, in order: for a member banned in the store the ban call
  alone when it failed, or the successful ban call and the unban call; for any other member
  the welcome reply. Only the last block can hold a welcome that failed, and then the loop
  raised.
\<close>

lemma greet_members_blocks:
  "\<exists>blocks. snd (greet_members g u s ms log) = log @ concat blocks
     \<and> length blocks \<le> length ms
     \<and> list_all2 (member_block_ok u s) (take (length blocks) ms) blocks
     \<and> (\<forall>b\<in>set (butlast blocks). \<not> welcome_failed b)
     \<and> (fst (greet_members g u s ms log) = Returned \<longrightarrow>
          length blocks = length ms \<and> (\<forall>b\<in>set blocks. \<not> welcome_failed b))
     \<and> (fst (greet_members g u s ms log) = Raised \<longrightarrow>
          blocks \<noteq> []
          \<and> last blocks = [(ReplyText (join_chat_id u) (join_message_id u)
                               (Welcome (display_name (ms ! (length blocks - 1)))), False)])"
proof (induction ms arbitrary: log)
  case Nil
  show ?case by (rule exI [of _ "[]"]) simp
next
  case (Cons m ms)
  define ban where "ban = BanChatMember (join_chat_id u) (member_id m)"
  define unban where "unban = UnbanChatMember (join_chat_id u) (member_id m)"
  define greeting where
    "greeting = ReplyText (join_chat_id u) (join_message_id u) (Welcome (display_name m))"
  have step: "\<exists>blocks. snd (greet_members g u s (m # ms) log) = log @ concat blocks
     \<and> length blocks \<le> length (m # ms)
     \<and> list_all2 (member_block_ok u s) (take (length blocks) (m # ms)) blocks
     \<and> (\<forall>b\<in>set (butlast blocks). \<not> welcome_failed b)
     \<and> (fst (greet_members g u s (m # ms) log) = Returned \<longrightarrow>
          length blocks = length (m # ms) \<and> (\<forall>b\<in>set blocks. \<not> welcome_failed b))
     \<and> (fst (greet_members g u s (m # ms) log) = Raised \<longrightarrow>
          blocks \<noteq> []
          \<and> last blocks = [(ReplyText (join_chat_id u) (join_message_id u)
                               (Welcome (display_name ((m # ms) ! (length blocks - 1)))), False)])"
    if run: "greet_members g u s (m # ms) log = greet_members g u s ms (log @ block)"
      and ok: "member_block_ok u s m block" and nf: "\<not> welcome_failed block" for block
  proof -
    from Cons.IH [of "log @ block"] obtain blocks where
      b: "snd (greet_members g u s ms (log @ block)) = (log @ block) @ concat blocks"
         "length blocks \<le> length ms"
         "list_all2 (member_block_ok u s) (take (length blocks) ms) blocks"
         "\<forall>b\<in>set (butlast blocks). \<not> welcome_failed b"
         "fst (greet_members g u s ms (log @ block)) = Returned \<longrightarrow>
            length blocks = length ms \<and> (\<forall>b\<in>set blocks. \<not> welcome_failed b)"
         "fst (greet_members g u s ms (log @ block)) = Raised \<longrightarrow>
            blocks \<noteq> []
            \<and> last blocks = [(ReplyText (join_chat_id u) (join_message_id u)
                               (Welcome (display_name (ms ! (length blocks - 1)))), False)]"
      by blast
    have idx: "blocks \<noteq> [] \<Longrightarrow> (m # ms) ! (length (block # blocks) - 1) = ms ! (length blocks - 1)"
      by (cases blocks) simp_all
    show ?thesis
      using b ok nf idx unfolding run
      by (intro exI [of _ "block # blocks"]) auto
  qed
  show ?case
  proof (cases "is_banned_db (member_id m) s")
    case True
    show ?thesis
    proof (cases "g (map fst log) ban")
      case ok1: True
      have "greet_members g u s (m # ms) log
            = greet_members g u s ms (log @ [(ban, True), (unban, g (map fst log @ [ban]) unban)])"
        using True ok1 by (simp add: call_def Let_def ban_def unban_def)
      moreover have "member_block_ok u s m [(ban, True), (unban, g (map fst log @ [ban]) unban)]"
        using True by (auto simp: member_block_ok_def ban_def unban_def)
      moreover have "\<not> welcome_failed [(ban, True), (unban, g (map fst log @ [ban]) unban)]"
        by (simp add: welcome_failed_def ban_def unban_def)
      ultimately show ?thesis by (rule step)
    next
      case ok1: False
      have "greet_members g u s (m # ms) log = greet_members g u s ms (log @ [(ban, False)])"
        using True ok1 by (simp add: call_def Let_def ban_def)
      moreover have "member_block_ok u s m [(ban, False)]"
        using True by (auto simp: member_block_ok_def ban_def)
      moreover have "\<not> welcome_failed [(ban, False)]"
        by (simp add: welcome_failed_def ban_def)
      ultimately show ?thesis by (rule step)
    qed
  next
    case False
    show ?thesis
    proof (cases "g (map fst log) greeting")
      case ok: True
      have "greet_members g u s (m # ms) log = greet_members g u s ms (log @ [(greeting, True)])"
        using False ok by (simp add: call_def Let_def greeting_def)
      moreover have "member_block_ok u s m [(greeting, True)]"
        using False by (auto simp: member_block_ok_def greeting_def)
      moreover have "\<not> welcome_failed [(greeting, True)]"
        by (simp add: welcome_failed_def)
      ultimately show ?thesis by (rule step)
    next
      case ok: False
      have r: "greet_members g u s (m # ms) log = (Raised, log @ [(greeting, False)])"
        using False ok by (simp add: call_def Let_def greeting_def)
      have "member_block_ok u s m [(greeting, False)]"
        using False by (auto simp: member_block_ok_def greeting_def)
      then show ?thesis unfolding r
        by (intro exI [of _ "[[(greeting, False)]]"]) (simp add: greeting_def)
    qed
  qed
qed

text \<open>
  C6, as the code has it. The members of a join update are handled in order, and the first
  welcome reply that fails ends the handler: the members after it get no call. For each
  member handled, if the user is banned in the store the handler calls the ban and, exactly
  when that call succeeded, the unban right after it, and sends no welcome; if the user is
  not banned, its one call is the welcome reply. When the handler returns, every member
  was handled.
\<close>

theorem new_member_calls:
  "\<exists>blocks. snd (new_member_handler g u s) = concat blocks
     \<and> length blocks \<le> length (new_chat_members u)
     \<and> list_all2 (member_block_ok u s) (take (length blocks) (new_chat_members u)) blocks
     \<and> (\<forall>b\<in>set (butlast blocks). \<not> welcome_failed b)
     \<and> (fst (new_member_handler g u s) = Returned \<longrightarrow>
          length blocks = length (new_chat_members u) \<and> (\<forall>b\<in>set blocks. \<not> welcome_failed b))
     \<and> (fst (new_member_handler g u s) = Raised \<longrightarrow>
          blocks \<noteq> []
          \<and> last blocks = [(ReplyText (join_chat_id u) (join_message_id u)
                 (Welcome (display_name (new_chat_members u ! (length blocks - 1)))), False)])"
  using greet_members_blocks [of g u s "new_chat_members u" "[]"]
  by (simp add: new_member_handler_def)

text \<open>
  Bob, who is not banned, and user 7, who is, join in one update: once in a chat in which
  every call succeeds, once in a chat in which the welcome reply is refused.
\<close>

theorem new_member_calls_witness:
  "fst (new_member_handler all_granted (example_join [example_clean_member, example_member])
          banned_before) = Returned
   \<and> (\<exists>blocks. snd (new_member_handler all_granted
                       (example_join [example_clean_member, example_member]) banned_before)
                 = concat blocks
         \<and> list_all2 (member_block_ok (example_join [example_clean_member, example_member])
                        banned_before)
              [example_clean_member, example_member] blocks)
   \<and> fst (new_member_handler welcome_refused (example_join [example_clean_member, example_member])
          banned_before) = Raised
   \<and> (\<exists>blocks. snd (new_member_handler welcome_refused
                       (example_join [example_clean_member, example_member]) banned_before)
                 = concat blocks
         \<and> list_all2 (member_block_ok (example_join [example_clean_member, example_member])
                        banned_before)
              (take (length blocks) [example_clean_member, example_member]) blocks
         \<and> blocks \<noteq> []
         \<and> last blocks = [(ReplyText 100 60 (Welcome (display_name
               ([example_clean_member, example_member] ! (length blocks - 1)))), False)])"
proof -
  define u where "u = example_join [example_clean_member, example_member]"
  have ms: "new_chat_members u = [example_clean_member, example_member]"
    and ids: "join_chat_id u = 100" "join_message_id u = 60"
    by (simp_all add: u_def example_join_def)
  have r1: "fst (new_member_handler all_granted u banned_before) = Returned"
    unfolding u_def by code_simp
  have r2: "fst (new_member_handler welcome_refused u banned_before) = Raised"
    unfolding u_def by code_simp
  from new_member_calls [of all_granted u banned_before] r1
  have 1: "\<exists>blocks. snd (new_member_handler all_granted u banned_before) = concat blocks
         \<and> list_all2 (member_block_ok u banned_before) [example_clean_member, example_member] blocks"
    by (auto simp: ms)
  from new_member_calls [of welcome_refused u banned_before] r2
  have 2: "\<exists>blocks. snd (new_member_handler welcome_refused u banned_before) = concat blocks
         \<and> list_all2 (member_block_ok u banned_before)
              (take (length blocks) [example_clean_member, example_member]) blocks
         \<and> blocks \<noteq> []
         \<and> last blocks = [(ReplyText 100 60 (Welcome (display_name
               ([example_clean_member, example_member] ! (length blocks - 1)))), False)]"
    by (auto simp: ms ids)
  from r1 1 r2 2 show ?thesis unfolding u_def by blast
qed

text \<open>
  C6 as the claim words it has, for a banned user, the ban call followed by the unban call.
  In a chat without ban rights the ban call for the banned user 7 raises, the \<^verbatim>\<open>except\<close>
  passes, and no unban call is made. And when Bob and user 7 join in one update and the
  welcome for Bob is refused, the handler ends there: no call is made for user 7.
\<close>

theorem rejoin_calls_counterexample:
  "is_banned_db (member_id example_member) banned_before
   \<and> new_member_handler no_ban_rights (example_join [example_member]) banned_before
     = (Returned, [(BanChatMember 100 7, False)])
   \<and> new_member_handler welcome_refused (example_join [example_clean_member, example_member])
       banned_before
     = (Raised, [(ReplyText 100 60 (Welcome ''Bob''), False)])"
  by code_simp

text \<open>
  The bans table passes through the spam tracker, the warn and the allow-list test
  unread.
\<close>

lemma add_message_time_bans_upd:
  "add_message_time now uid (s\<lparr>bans := b\<rparr>)
   = (fst (add_message_time now uid s), (snd (add_message_time now uid s))\<lparr>bans := b\<rparr>)"
  by (simp add: add_message_time_def Let_def)

lemma warn_user_db_bans_upd:
  "warn_user_db ts uid (s\<lparr>bans := b\<rparr>)
   = (fst (warn_user_db ts uid s), (snd (warn_user_db ts uid s))\<lparr>bans := b\<rparr>)"
  by (simp add: warn_user_db_def Let_def split: option.splits)

lemma contains_allowed_link_bans_upd:
  "contains_allowed_link (s\<lparr>bans := b\<rparr>) t = contains_allowed_link s t"
  by (simp add: contains_allowed_link_def list_allowed_links_def)

lemma no_write: "ignores_bans (\<lambda>b. (out0, s0\<lparr>bans := b\<rparr>, log0))"
  unfolding ignores_bans_def
  by (rule exI [of _ out0], rule exI [of _ None], rule exI [of _ log0], rule exI [of _ s0]) simp

lemma one_write: "ignores_bans (\<lambda>b. (out0, ban_user_db ts uid r (s0\<lparr>bans := b\<rparr>), log0))"
  unfolding ignores_bans_def
  by (rule exI [of _ out0], rule exI [of _ "Some (uid, r, ts)"], rule exI [of _ log0],
      rule exI [of _ s0]) (simp add: ban_user_db_def)

lemma ignores_bans_if:
  "(c \<Longrightarrow> ignores_bans F) \<Longrightarrow> (\<not> c \<Longrightarrow> ignores_bans G)
   \<Longrightarrow> ignores_bans (\<lambda>b. if c then F b else G b)"
  by (cases c) simp_all

lemma spam_branch_ignores_bans: "ignores_bans (\<lambda>b. spam_branch e msg (s\<lparr>bans := b\<rparr>))"
  unfolding spam_branch_def call_def Let_def warn_user_db_bans_upd case_prod_beta fst_conv snd_conv
  by (intro ignores_bans_if no_write one_write)

lemma link_branch_ignores_bans: "ignores_bans (\<lambda>b. link_branch e msg raw (s\<lparr>bans := b\<rparr>))"
  unfolding link_branch_def call_def Let_def contains_allowed_link_bans_upd case_prod_beta
    fst_conv snd_conv
  by (intro ignores_bans_if no_write one_write)

text \<open>
  C8. \<open>message_handler\<close> never reads the bans table. For every message, started from
  any two bans tables the handler ends the same way, makes the same calls with the same
  outcomes, leaves the same warns, links and spam tracker, and does the same write to the
  bans table: none, or the upsert of one row.
\<close>

theorem message_handler_ignores_bans:
  "\<exists>out w log s1. \<forall>b. message_handler cfg e upd (s\<lparr>bans := b\<rparr>)
      = (out, s1\<lparr>bans := apply_ban_write w b\<rparr>, log)"
proof (cases "\<exists>msg raw. upd = Some msg \<and> msg_text msg = Some raw \<and> raw \<noteq> []
    \<and> \<not> (allowed_chat_ids cfg \<noteq> [] \<and> msg_chat_id msg \<notin> set (allowed_chat_ids cfg))
    \<and> msg_from_id msg \<noteq> owner_id cfg")
  case False
  then have "message_handler cfg e upd (s\<lparr>bans := b\<rparr>) = (Returned, s\<lparr>bans := b\<rparr>, [])" for b
    by (auto simp: message_handler_def split: option.splits)
  then show ?thesis using no_write [of Returned s "[]"] by (simp add: ignores_bans_def)
next
  case True
  then obtain msg raw where m: "upd = Some msg" "msg_text msg = Some raw" "raw \<noteq> []"
    "\<not> (allowed_chat_ids cfg \<noteq> [] \<and> msg_chat_id msg \<notin> set (allowed_chat_ids cfg))"
    "msg_from_id msg \<noteq> owner_id cfg" by blast
  define s1 where "s1 = snd (add_message_time (utcnow e) (msg_from_id msg) s)"
  show ?thesis
  proof (cases "spam_max cfg < fst (add_message_time (utcnow e) (msg_from_id msg) s)")
    case True
    with m have "message_handler cfg e upd (s\<lparr>bans := b\<rparr>) = spam_branch e msg (s1\<lparr>bans := b\<rparr>)" for b
      by (auto simp: message_handler_def s1_def add_message_time_bans_upd)
    then show ?thesis using spam_branch_ignores_bans [of e msg s1] by (simp add: ignores_bans_def)
  next
    case False
    with m have "message_handler cfg e upd (s\<lparr>bans := b\<rparr>) = link_branch e msg raw (s1\<lparr>bans := b\<rparr>)" for b
      by (auto simp: message_handler_def s1_def add_message_time_bans_upd)
    then show ?thesis using link_branch_ignores_bans [of e msg raw s1] by (simp add: ignores_bans_def)
  qed
qed

end
